theory Spec2Isabelle
  imports Main "HOL-Library.Multiset" "HOL-Library.AList"
begin

section \<open>Data model (main.go, lines 15-27)\<close>

text \<open>
  The two structs of the program. A Go \<open>error\<close> value is \<open>nil\<close> or carries a message:
  \<open>string option\<close>. \<open>StatusCode\<close> is a Go \<open>int\<close>, \<open>Duration\<close> a \<open>time.Duration\<close>
  (nanoseconds); both are modelled as \<open>int\<close>. The counters of the program never exceed
  the number of jobs (200, see \<open>main\<close>), so no machine overflow can occur on them.
  The field \<open>Domain\<close> of \<open>Result\<close> is called \<open>DomainF\<close>, since \<open>Domain\<close> is a constant
  of HOL.
\<close>

record Domain =
  Name :: string
  Category :: string

record Result =
  DomainF :: Domain
  StatusCode :: int
  Error :: "string option"
  Duration :: int

text \<open>The zero value of the struct \<open>Domain\<close>: what fresh memory of a Go array holds.\<close>

definition zero_Domain :: Domain where
  "zero_Domain = \<lparr>Name = [], Category = []\<rparr>"

section \<open>Go slices of Domain\<close>

text \<open>
  A Go slice is a window of length \<open>len\<close> on an underlying array; the length of the
  array (from the start of the slice) is its capacity. \<open>arr\<close> is the array, \<open>elems\<close> the
  visible elements. The \<open>nil\<close> slice has no array: length and capacity 0.

  \<open>append\<close> with room left writes in place; otherwise it allocates a larger array,
  copies the elements and leaves the remaining slots at the zero value. The new capacity
  is the choice of the Go runtime (\<open>runtime.growslice\<close>), not of this repository: for one
  appended element the gc toolchain takes 1 for an empty array, twice the old capacity
  below 256 elements, and the old capacity plus a quarter of it plus 192 from there on
  (the allocator may round the last figure up; below 256 the sizes of arrays of this
  struct are allocator size classes and are kept as they are). Only the capacities up
  to 256 matter below.

  A slice expression \<open>s[:n]\<close> on a slice is in range when \<open>n \<le> cap s\<close> (the Go
  specification bounds it by the capacity, not the length) and panics otherwise.
\<close>

record slice =
  arr :: "Domain list"
  len :: nat

definition nil_slice :: slice where
  "nil_slice = \<lparr>arr = [], len = 0\<rparr>"

definition cap :: "slice \<Rightarrow> nat" where
  "cap s = length (arr s)"

definition elems :: "slice \<Rightarrow> Domain list" where
  "elems s = take (len s) (arr s)"

definition growslice_cap :: "nat \<Rightarrow> nat" where
  "growslice_cap oldCap =
     (if oldCap = 0 then 1
      else if oldCap < 256 then 2 * oldCap
      else oldCap + (oldCap + 768) div 4)"

definition append_slice :: "slice \<Rightarrow> Domain \<Rightarrow> slice" where
  "append_slice s x =
     (if len s < cap s then \<lparr>arr = (arr s)[len s := x], len = len s + 1\<rparr>
      else \<lparr>arr = elems s @ [x] @ replicate (growslice_cap (cap s) - (len s + 1)) zero_Domain,
            len = len s + 1\<rparr>)"

datatype panic = SliceBoundsOutOfRange nat nat

definition reslice :: "slice \<Rightarrow> nat \<Rightarrow> panic + slice" where
  "reslice s n = (if n \<le> cap s then Inr \<lparr>arr = arr s, len = n\<rparr>
                  else Inl (SliceBoundsOutOfRange n (cap s)))"

section \<open>The CSV reader (encoding/csv) and the file system\<close>

text \<open>
  The reader is library code; it is modelled at the level of records, by its documented
  contract. A file is a sequence of lines that the reader either splits into fields or
  rejects (bad quoting, a read failure). \<open>csv.NewReader\<close> returns a reader whose
  \<open>FieldsPerRecord\<close> is 0, and the program leaves it so: \<open>Read\<close> then sets it to the
  number of fields of the first record, and every later record with another number of
  fields is returned together with the error \<open>ErrFieldCount\<close>. At the end of the input
  \<open>Read\<close> returns \<open>io.EOF\<close>.

  \<open>os.Open\<close> fails or gives the content of the file.
\<close>

datatype csv_line = Fields "string list" | Malformed string

datatype read_error = EOF | ParseError string | ErrFieldCount

record Reader =
  input :: "csv_line list"
  FieldsPerRecord :: int

definition NewReader :: "csv_line list \<Rightarrow> Reader" where
  "NewReader ls = \<lparr>input = ls, FieldsPerRecord = 0\<rparr>"

fun Read :: "Reader \<Rightarrow> (string list \<times> read_error option) \<times> Reader" where
  "Read r =
     (case input r of
        [] \<Rightarrow> (([], Some EOF), r)
      | Malformed msg # ls \<Rightarrow> (([], Some (ParseError msg)), r\<lparr>input := ls\<rparr>)
      | Fields fs # ls \<Rightarrow>
          (if FieldsPerRecord r > 0 then
             (if int (length fs) \<noteq> FieldsPerRecord r
              then ((fs, Some ErrFieldCount), r\<lparr>input := ls\<rparr>)
              else ((fs, None), r\<lparr>input := ls\<rparr>))
           else if FieldsPerRecord r = 0 then
             ((fs, None), r\<lparr>input := ls, FieldsPerRecord := int (length fs)\<rparr>)
           else ((fs, None), r\<lparr>input := ls\<rparr>)))"

type_synonym filesystem = "string \<Rightarrow> string + csv_line list"

section \<open>ReadDomainsFromCSV (main.go, lines 83-118)\<close>

datatype load_error =
    ErrorOpeningFile string
  | ErrorReadingHeader read_error
  | ErrorReadingRecord read_error

text \<open>
  The loop of lines 100-115: one \<open>Read\<close> per round; \<open>io.EOF\<close> ends the loop, any other
  error is returned, and a record of at least two fields is appended.
\<close>

function read_records :: "Reader \<Rightarrow> slice \<Rightarrow> load_error + slice" where
  "read_records reader domains =
     (case Read reader of
        ((record, Some EOF), reader') \<Rightarrow> Inr domains
      | ((record, Some err), reader') \<Rightarrow> Inl (ErrorReadingRecord err)
      | ((record, None), reader') \<Rightarrow>
          (if length record \<ge> 2
           then read_records reader'
                  (append_slice domains \<lparr>Name = record ! 0, Category = record ! 1\<rparr>)
           else read_records reader' domains))"
  by pat_completeness auto
termination
  by (relation "measure (\<lambda>(r, d). length (input r))")
     (auto split: list.splits csv_line.splits if_splits)

definition ReadDomainsFromCSV :: "filesystem \<Rightarrow> string \<Rightarrow> load_error + slice" where
  "ReadDomainsFromCSV fs filename =
     (case fs filename of
        Inl err \<Rightarrow> Inl (ErrorOpeningFile err)
      | Inr content \<Rightarrow>
          (case Read (NewReader content) of
             ((header, Some err), reader) \<Rightarrow> Inl (ErrorReadingHeader err)
           | ((header, None), reader) \<Rightarrow> read_records reader nil_slice))"

section \<open>The HTTP client (net/http) and the worker (main.go, lines 30-80)\<close>

text \<open>
  The network is the environment of the program. For one round of the worker's loop it
  supplies: whether \<open>http.NewRequestWithContext\<close> rejects the URL, the reply to the
  request (a transport failure such as a timeout, a refused connection, a DNS or TLS
  failure, or a response with its status code), the replies that following the
  redirects would obtain, and the elapsed time that \<open>time.Since\<close> reads.

  \<open>Client.Do\<close> is library code, modelled by its documented contract: a transport
  failure is returned as an error; on a redirect response that names a next hop the
  client asks \<open>CheckRedirect\<close>, and on \<open>http.ErrUseLastResponse\<close> it returns the most recent
  response with a nil error instead of sending the next request. The closure of lines
  36-38 returns \<open>http.ErrUseLastResponse\<close> whatever the request.
  The two timeouts of 10 seconds and the User-Agent header decide which reply the
  environment gives and are not modelled further.
\<close>

datatype reply = TransportError string | Response int

datatype redirect_verdict = ErrUseLastResponse | FollowRedirect

record probe_env =
  request_error :: "string option"
  first_reply :: reply
  redirect_replies :: "reply list"
  elapsed :: int

definition is_redirect :: "int \<Rightarrow> bool" where
  "is_redirect code = (code = 301 \<or> code = 302 \<or> code = 303 \<or> code = 307 \<or> code = 308)"

fun client_Do :: "(string \<Rightarrow> nat \<Rightarrow> redirect_verdict) \<Rightarrow> string \<Rightarrow> nat
                    \<Rightarrow> reply \<Rightarrow> reply list \<Rightarrow> string + int" where
  "client_Do chk url via (TransportError err) rest = Inl err"
| "client_Do chk url via (Response code) [] = Inr code"
| "client_Do chk url via (Response code) (r # rs) =
     (if is_redirect code then
        (case chk url (Suc via) of
           ErrUseLastResponse \<Rightarrow> Inr code
         | FollowRedirect \<Rightarrow> client_Do chk url (Suc via) r rs)
      else Inr code)"

definition CheckRedirect :: "string \<Rightarrow> nat \<Rightarrow> redirect_verdict" where
  "CheckRedirect req via = ErrUseLastResponse"

text \<open>
  One round of the loop of lines 43-79 for a dequeued domain: the list of the values sent
  on \<open>results\<close> in this round, and the URLs handed to \<open>client.Do\<close>. The first branch is
  the \<open>continue\<close> of lines 53-59, which sends before it skips the rest of the round.
\<close>

definition worker_round :: "probe_env \<Rightarrow> Domain \<Rightarrow> Result list \<times> string list" where
  "worker_round env domain =
     (let result = \<lparr>DomainF = domain, StatusCode = 0, Error = None, Duration = 0\<rparr>;
          url = ''https://'' @ Name domain
      in case request_error env of
           Some err \<Rightarrow> ([result\<lparr>Error := Some err, Duration := elapsed env\<rparr>], [])
         | None \<Rightarrow>
             (let result' =
                (case client_Do CheckRedirect url 0 (first_reply env) (redirect_replies env) of
                   Inl err \<Rightarrow> result\<lparr>Error := Some err\<rparr>
                 | Inr code \<Rightarrow> result\<lparr>StatusCode := code\<rparr>)
              in ([result'\<lparr>Duration := elapsed env\<rparr>], [url])))"

section \<open>The aggregator (main.go, lines 159-204) and the printed lines\<close>

text \<open>
  The two Go maps are association lists with distinct keys; reading a missing key gives
  the zero value, as in Go. Standard output is the list of the printed lines. Go ranges
  over a map in an unspecified order; the summary lists the entries in the order of the
  association list, which is one of the admitted orders.
\<close>

record stats =
  Total :: int
  Success :: int
  Failed :: int

definition zero_stats :: stats where
  "zero_stats = \<lparr>Total = 0, Success = 0, Failed = 0\<rparr>"

datatype icon = OkIcon | WarnIcon

datatype out_line =
    LoadedLine nat
  | StartingLine nat
  | ProcessingLine
  | ErrorLine string string string int
  | StatusLine icon string string int int
  | SummaryHeader
  | TotalLine nat
  | SuccessfulLine int
  | FailedLine int
  | DistributionHeader
  | StatusCodeLine int int
  | CategoryHeader
  | CategoryLine string int int int

definition get_stats :: "(string \<times> stats) list \<Rightarrow> string \<Rightarrow> stats" where
  "get_stats m k = (case map_of m k of None \<Rightarrow> zero_stats | Some v \<Rightarrow> v)"

definition get_count :: "(int \<times> int) list \<Rightarrow> int \<Rightarrow> int" where
  "get_count m k = (case map_of m k of None \<Rightarrow> 0 | Some v \<Rightarrow> v)"

datatype wstate = Ready | Busy Domain | Exited

record sys =
  total :: nat
  to_send :: "Domain list"
  jobs :: "Domain list"
  jobs_closed :: bool
  workers :: "wstate list"
  results :: "Result list"
  results_closed :: bool
  successful :: int
  failed :: int
  statusCodes :: "(int \<times> int) list"
  categoryStats :: "(string \<times> stats) list"
  out :: "out_line list"
  requested :: "string list"
  finished :: bool

text \<open>The body of the loop of lines 172-204 for one received result.\<close>

definition process_result :: "Result \<Rightarrow> sys \<Rightarrow> sys" where
  "process_result result s =
     (let category = Category (DomainF result);
          stats = get_stats (categoryStats s) category;
          stats = stats\<lparr>Total := Total stats + 1\<rparr>
      in case Error result of
           Some err \<Rightarrow>
             s\<lparr>failed := failed s + 1,
               out := out s @ [ErrorLine (Name (DomainF result)) (Category (DomainF result))
                                 err (Duration result)],
               categoryStats := AList.update category (stats\<lparr>Failed := Failed stats + 1\<rparr>)
                                  (categoryStats s)\<rparr>
         | None \<Rightarrow>
             s\<lparr>successful := successful s + 1,
               statusCodes := AList.update (StatusCode result)
                                (get_count (statusCodes s) (StatusCode result) + 1)
                                (statusCodes s),
               out := out s @ [StatusLine (if StatusCode result \<ge> 400 then WarnIcon else OkIcon)
                                 (Name (DomainF result)) (Category (DomainF result))
                                 (StatusCode result) (Duration result)],
               categoryStats := AList.update category (stats\<lparr>Success := Success stats + 1\<rparr>)
                                  (categoryStats s)\<rparr>)"

text \<open>The summary of lines 206-225.\<close>

definition summary :: "sys \<Rightarrow> out_line list" where
  "summary s =
     [SummaryHeader, TotalLine (total s), SuccessfulLine (successful s), FailedLine (failed s),
      DistributionHeader]
     @ map (\<lambda>(code, count). StatusCodeLine code count) (statusCodes s)
     @ [CategoryHeader]
     @ map (\<lambda>(category, st). CategoryLine category (Total st) (Success st) (Failed st))
           (categoryStats s)"

section \<open>The concurrent pipeline of main (main.go, lines 133-226)\<close>

text \<open>
  The goroutines of the program are interleaved by the Go scheduler. A run is a schedule:
  a list of events, each the next step of one goroutine; an event whose goroutine cannot
  take that step in the current state (it is blocked, or is elsewhere in its code) leaves
  the state as it is. \<open>total\<close> is \<open>len(domains)\<close>, the capacity of both channels.

  \<^item> \<open>SendJob\<close>: main sends the next domain on \<open>jobs\<close> (line 149); blocked on a full buffer.
  \<^item> \<open>CloseJobs\<close>: main closes \<open>jobs\<close> after the last send (line 151) and prints the
    heading of lines 169-170.
  \<^item> \<open>Receive w\<close>: worker \<open>w\<close> at \<open>range jobs\<close> (line 43) takes a domain, or leaves its loop
    when the channel is closed and empty (then \<open>wg.Done\<close> runs), or stays blocked.
  \<^item> \<open>Emit w env\<close>: worker \<open>w\<close> runs the round for the domain it holds against the
    environment \<open>env\<close> and sends on \<open>results\<close>; blocked on a full buffer. After the round
    the worker is back at \<open>range jobs\<close>.
  \<^item> \<open>CloseResults\<close>: the goroutine of lines 154-157 closes \<open>results\<close> once every worker
    has left its loop.
  \<^item> \<open>Collect\<close>: main receives one result in the loop of line 172 and processes it.
  \<^item> \<open>Summarize\<close>: \<open>results\<close> is closed and empty; main leaves the loop and prints the
    summary.
\<close>

datatype event =
    SendJob
  | CloseJobs
  | Receive nat
  | Emit nat probe_env
  | CloseResults
  | Collect
  | Summarize

definition numWorkers :: nat where
  "numWorkers = 10"

definition init :: "Domain list \<Rightarrow> sys" where
  "init domains =
     \<lparr>total = length domains, to_send = domains, jobs = [], jobs_closed = False,
      workers = replicate numWorkers Ready, results = [], results_closed = False,
      successful = 0, failed = 0, statusCodes = [], categoryStats = [],
      out = [LoadedLine (length domains), StartingLine numWorkers],
      requested = [], finished = False\<rparr>"

fun step :: "event \<Rightarrow> sys \<Rightarrow> sys" where
  "step SendJob s =
     (case to_send s of
        [] \<Rightarrow> s
      | d # ds \<Rightarrow> if length (jobs s) < total s
                  then s\<lparr>to_send := ds, jobs := jobs s @ [d]\<rparr> else s)"
| "step CloseJobs s =
     (if to_send s = [] \<and> \<not> jobs_closed s
      then s\<lparr>jobs_closed := True, out := out s @ [ProcessingLine]\<rparr> else s)"
| "step (Receive w) s =
     (if w < length (workers s) \<and> workers s ! w = Ready then
        (case jobs s of
           d # ds \<Rightarrow> s\<lparr>jobs := ds, workers := (workers s)[w := Busy d]\<rparr>
         | [] \<Rightarrow> if jobs_closed s then s\<lparr>workers := (workers s)[w := Exited]\<rparr> else s)
      else s)"
| "step (Emit w env) s =
     (if w < length (workers s) \<and> length (results s) < total s then
        (case workers s ! w of
           Busy d \<Rightarrow> s\<lparr>results := results s @ fst (worker_round env d),
                       requested := requested s @ snd (worker_round env d),
                       workers := (workers s)[w := Ready]\<rparr>
         | _ \<Rightarrow> s)
      else s)"
| "step CloseResults s =
     (if list_all (\<lambda>w. w = Exited) (workers s) \<and> \<not> results_closed s
      then s\<lparr>results_closed := True\<rparr> else s)"
| "step Collect s =
     (if jobs_closed s \<and> \<not> finished s then
        (case results s of
           [] \<Rightarrow> s
         | r # rs \<Rightarrow> process_result r (s\<lparr>results := rs\<rparr>))
      else s)"
| "step Summarize s =
     (if jobs_closed s \<and> results s = [] \<and> results_closed s \<and> \<not> finished s
      then s\<lparr>finished := True, out := out s @ summary s\<rparr> else s)"

definition run :: "event list \<Rightarrow> sys \<Rightarrow> sys" where
  "run sched s = fold step sched s"

text \<open>
  \<open>main\<close>: the load (a failure ends the process through \<open>log.Fatalf\<close>), the re-slice of
  line 131 (which may panic), then the pipeline under the given schedule. The path of
  the input is the constant of line 123.
\<close>

datatype outcome = Fatal load_error | Panicked panic | Ran sys

definition csvFile :: string where
  "csvFile = ''domains2.csv''"

definition main :: "filesystem \<Rightarrow> event list \<Rightarrow> outcome" where
  "main fs sched =
     (case ReadDomainsFromCSV fs csvFile of
        Inl err \<Rightarrow> Fatal err
      | Inr domains \<Rightarrow>
          (case reslice domains 200 of
             Inl p \<Rightarrow> Panicked p
           | Inr domains' \<Rightarrow> Ran (run sched (init (elems domains')))))"

text \<open>What a run has printed on standard output and which URLs it has requested.\<close>

fun stdout_of :: "outcome \<Rightarrow> out_line list" where
  "stdout_of (Ran s) = out s"
| "stdout_of _ = []"

fun requests_of :: "outcome \<Rightarrow> string list" where
  "requests_of (Ran s) = requested s"
| "requests_of _ = []"

section \<open>Observations and invariants used in the proofs\<close>

text \<open>The \<open>Domain\<close> that lines 110-113 build from a record.\<close>

abbreviation row_Domain :: "string list \<Rightarrow> Domain" where
  "row_Domain row \<equiv> \<lparr>Name = row ! 0, Category = row ! 1\<rparr>"

text \<open>
  What holds of every slice built from \<open>nil\<close> by \<open>append\<close>: the length is within the
  capacity, the capacity is less than twice the length, it is a power of two up to 128
  or at least 256, and the array holds zero values beyond the length.
\<close>

definition gc_grown :: "slice \<Rightarrow> bool" where
  "gc_grown s = (len s \<le> cap s \<and> (cap s = 0 \<or> cap s < 2 * len s) \<and>
     (cap s = 0 \<or> cap s = 1 \<or> cap s = 2 \<or> cap s = 4 \<or> cap s = 8 \<or> cap s = 16 \<or> cap s = 32
      \<or> cap s = 64 \<or> cap s = 128 \<or> 256 \<le> cap s) \<and>
     drop (len s) (arr s) = replicate (cap s - len s) zero_Domain)"

text \<open>
  Where a domain of the run can be: not yet sent, in the buffer of \<open>jobs\<close>, held by a
  worker, inside a result in the buffer of \<open>results\<close>, or reported: named by one of the
  per-result lines that the aggregator has printed. \<open>accounted\<close> is the multiset of all
  of them.
\<close>

fun held :: "wstate \<Rightarrow> Domain list" where
  "held (Busy d) = [d]"
| "held _ = []"

definition busy_domains :: "wstate list \<Rightarrow> Domain list" where
  "busy_domains ws = concat (map held ws)"

fun line_domain :: "out_line \<Rightarrow> Domain list" where
  "line_domain (ErrorLine name category err dur) = [\<lparr>Name = name, Category = category\<rparr>]"
| "line_domain (StatusLine ic name category code dur) = [\<lparr>Name = name, Category = category\<rparr>]"
| "line_domain _ = []"

definition reported :: "out_line list \<Rightarrow> Domain list" where
  "reported ls = concat (map line_domain ls)"

definition accounted :: "sys \<Rightarrow> Domain multiset" where
  "accounted s = mset (to_send s) + mset (jobs s) + mset (busy_domains (workers s))
     + mset (map DomainF (results s)) + mset (reported (out s))"

text \<open>
  The order of the two closures: \<open>jobs\<close> is closed after the last send, a worker leaves
  its loop only on the closed and drained \<open>jobs\<close>, \<open>results\<close> is closed after every worker
  has left, and the summary comes after \<open>results\<close> is closed and drained.
\<close>

definition flags_inv :: "sys \<Rightarrow> bool" where
  "flags_inv s = (length (workers s) = numWorkers \<and>
     (jobs_closed s \<longrightarrow> to_send s = []) \<and>
     (Exited \<in> set (workers s) \<longrightarrow> jobs s = [] \<and> jobs_closed s) \<and>
     (results_closed s \<longrightarrow> list_all (\<lambda>w. w = Exited) (workers s)) \<and>
     (finished s \<longrightarrow> results s = [] \<and> results_closed s))"

definition pipeline_inv :: "Domain list \<Rightarrow> sys \<Rightarrow> bool" where
  "pipeline_inv ds s = (total s = length ds \<and> accounted s = mset ds \<and>
     successful s + failed s = int (length (reported (out s))) \<and> flags_inv s)"

text \<open>The sum of one field over the entries of the category map.\<close>

definition sum_stats :: "(stats \<Rightarrow> int) \<Rightarrow> (string \<times> stats) list \<Rightarrow> int" where
  "sum_stats f m = sum_list (map (\<lambda>(category, st). f st) m)"

definition stats_inv :: "sys \<Rightarrow> bool" where
  "stats_inv s = (sum_stats Total (categoryStats s) = successful s + failed s \<and>
     sum_stats Success (categoryStats s) = successful s \<and>
     sum_stats Failed (categoryStats s) = failed s \<and>
     distinct (map fst (categoryStats s)))"

definition balanced :: "sys \<Rightarrow> bool" where
  "balanced s = (\<forall>c. Total (get_stats (categoryStats s) c) =
      Success (get_stats (categoryStats s) c) + Failed (get_stats (categoryStats s) c))"

subsection \<open>Example inputs\<close>

text \<open>
  A file of \<open>n\<close> data rows under a header of two columns, an environment in which the
  probe is answered with status 200, and the schedule in which main sends every job and
  closes \<open>jobs\<close>, worker 0 serves the jobs one by one with the aggregator collecting each
  result at once, and then the ten workers leave, \<open>results\<close> is closed and the summary is
  printed. \<open>serving\<close> describes the states between two rounds of that schedule.
\<close>

definition fs_rows :: "nat \<Rightarrow> filesystem" where
  "fs_rows n = (\<lambda>name. Inr (Fields [''domain'', ''category'']
                  # replicate n (Fields [''example.com'', ''tech''])))"

definition env_ok :: probe_env where
  "env_ok = \<lparr>request_error = None, first_reply = Response 200, redirect_replies = [], elapsed = 1\<rparr>"

definition exits :: "event list" where
  "exits = [Receive 0, Receive 1, Receive 2, Receive 3, Receive 4, Receive 5, Receive 6, Receive 7,
        Receive 8, Receive 9, CloseResults, Summarize]"

definition sequential :: "probe_env list \<Rightarrow> event list" where
  "sequential envs = replicate (length envs) SendJob @ [CloseJobs]
     @ concat (map (\<lambda>env. [Receive 0, Emit 0 env, Collect]) envs) @ exits"

definition serving :: "sys \<Rightarrow> bool" where
  "serving s = (to_send s = [] \<and> jobs_closed s \<and> workers s = replicate numWorkers Ready \<and>
     results s = [] \<and> \<not> results_closed s \<and> \<not> finished s \<and> length (jobs s) \<le> total s)"

section \<open>Slices: the capacity after a run of appends\<close>

lemma gc_grown_nil: "gc_grown nil_slice"
  by (simp add: gc_grown_def nil_slice_def cap_def)

lemma elems_append_slice: "len s \<le> cap s \<Longrightarrow> elems (append_slice s x) = elems s @ [x]"
  by (auto simp: append_slice_def elems_def cap_def take_Suc_conv_app_nth)

lemma len_append_slice: "len (append_slice s x) = len s + 1"
  by (simp add: append_slice_def)

lemma cap_append_slice:
  "len s \<le> cap s \<Longrightarrow>
   cap (append_slice s x) = (if len s < cap s then cap s else growslice_cap (cap s))"
  by (auto simp: append_slice_def cap_def elems_def growslice_cap_def)

lemma growslice_cap_gt: "c < growslice_cap c"
  unfolding growslice_cap_def by (auto; arith)

lemma drop_append_slice:
  assumes "len s \<le> cap s" "drop (len s) (arr s) = replicate (cap s - len s) zero_Domain"
  shows "drop (len s + 1) (arr (append_slice s x)) =
         replicate (cap (append_slice s x) - (len s + 1)) zero_Domain"
proof (cases "len s < cap s")
  case True
  have "drop (Suc (len s)) (arr s) = drop 1 (drop (len s) (arr s))"
    by simp
  also have "\<dots> = replicate (cap s - Suc (len s)) zero_Domain"
    using assms(2) True by simp
  finally show ?thesis
    using True by (simp add: append_slice_def cap_def)
next
  case False
  then show ?thesis
    using assms(1) by (simp add: append_slice_def cap_def elems_def)
qed

lemma gc_grown_append:
  assumes "gc_grown s"
  shows "gc_grown (append_slice s x)"
proof -
  have l: "len s \<le> cap s"
    using assms by (simp add: gc_grown_def)
  have c: "cap (append_slice s x) = (if len s < cap s then cap s else growslice_cap (cap s))"
    using l by (rule cap_append_slice)
  have d: "drop (len (append_slice s x)) (arr (append_slice s x)) =
           replicate (cap (append_slice s x) - len (append_slice s x)) zero_Domain"
    using drop_append_slice [of s x] assms by (simp add: gc_grown_def len_append_slice)
  have "len (append_slice s x) \<le> cap (append_slice s x)"
    using l c growslice_cap_gt [of "cap s"] by (simp add: len_append_slice)
  moreover have "cap (append_slice s x) = 0 \<or> cap (append_slice s x) < 2 * len (append_slice s x)"
    using assms l c by (auto simp: gc_grown_def len_append_slice growslice_cap_def)
  moreover have "cap (append_slice s x) = 0 \<or> cap (append_slice s x) = 1
      \<or> cap (append_slice s x) = 2 \<or> cap (append_slice s x) = 4 \<or> cap (append_slice s x) = 8
      \<or> cap (append_slice s x) = 16 \<or> cap (append_slice s x) = 32 \<or> cap (append_slice s x) = 64
      \<or> cap (append_slice s x) = 128 \<or> 256 \<le> cap (append_slice s x)"
    using assms c by (auto simp: gc_grown_def growslice_cap_def)
  ultimately show ?thesis
    using d unfolding gc_grown_def by blast
qed

lemma gc_grown_panic_iff: "gc_grown s \<Longrightarrow> cap s < 200 \<longleftrightarrow> len s \<le> 128"
  by (auto simp: gc_grown_def)

section \<open>The loader\<close>

lemma Read_consistent:
  "input rd = Fields r # ls \<Longrightarrow> int (length r) = FieldsPerRecord rd \<Longrightarrow>
   Read rd = ((r, None), rd\<lparr>input := ls\<rparr>)"
  by simp

lemma Read_field_count:
  "input rd = Fields r # ls \<Longrightarrow> 0 < FieldsPerRecord rd \<Longrightarrow> int (length r) \<noteq> FieldsPerRecord rd \<Longrightarrow>
   Read rd = ((r, Some ErrFieldCount), rd\<lparr>input := ls\<rparr>)"
  by simp

lemma Read_malformed:
  "input rd = Malformed msg # ls \<Longrightarrow> Read rd = (([], Some (ParseError msg)), rd\<lparr>input := ls\<rparr>)"
  by simp

lemma Read_eof: "input rd = [] \<Longrightarrow> Read rd = (([], Some EOF), rd)"
  by simp

declare Read.simps [simp del]

declare read_records.simps [simp del]

lemma read_records_consistent:
  assumes "input rd = map Fields rows" "\<forall>r\<in>set rows. int (length r) = FieldsPerRecord rd"
    "gc_grown d"
  shows "\<exists>d'. read_records rd d = Inr d' \<and> gc_grown d' \<and>
           elems d' = elems d @ map row_Domain (filter (\<lambda>r. 2 \<le> length r) rows)"
  using assms
proof (induction rows arbitrary: rd d)
  case Nil
  then show ?case
    by (subst read_records.simps) (simp add: Read_eof)
next
  case (Cons r rows)
  let ?rd = "rd\<lparr>input := map Fields rows\<rparr>"
  have rd: "Read rd = ((r, None), ?rd)"
    using Cons.prems by (intro Read_consistent) simp_all
  have ih: "\<exists>d'. read_records ?rd d0 = Inr d' \<and> gc_grown d' \<and>
           elems d' = elems d0 @ map row_Domain (filter (\<lambda>r. 2 \<le> length r) rows)"
    if "gc_grown d0" for d0
    using Cons.prems that by (intro Cons.IH) simp_all
  show ?case
  proof (cases "2 \<le> length r")
    case True
    have g: "gc_grown (append_slice d (row_Domain r))"
      using Cons.prems(3) by (rule gc_grown_append)
    have e: "elems (append_slice d (row_Domain r)) = elems d @ [row_Domain r]"
      using Cons.prems(3) by (intro elems_append_slice) (simp add: gc_grown_def)
    show ?thesis
      using ih [OF g] True e by (subst read_records.simps) (simp add: rd)
  next
    case False
    show ?thesis
      using ih [OF Cons.prems(3)] False by (subst read_records.simps) (simp add: rd)
  qed
qed

lemma read_records_error:
  assumes "input rd = map Fields pre @ bad # rest"
    "\<forall>r\<in>set pre. int (length r) = FieldsPerRecord rd"
    "Read (rd\<lparr>input := bad # rest\<rparr>) = ((rec, Some err), rd')" "err \<noteq> EOF"
  shows "read_records rd d = Inl (ErrorReadingRecord err)"
  using assms
proof (induction pre arbitrary: rd d)
  case Nil
  then have "rd\<lparr>input := bad # rest\<rparr> = rd"
    by simp
  then have "Read rd = ((rec, Some err), rd')"
    using Nil.prems(3) by simp
  then show ?case
    using Nil.prems(4) by (subst read_records.simps) (cases err; simp)
next
  case (Cons r pre)
  let ?rd = "rd\<lparr>input := map Fields pre @ bad # rest\<rparr>"
  have rd: "Read rd = ((r, None), ?rd)"
    using Cons.prems by (intro Read_consistent) simp_all
  have ih: "read_records ?rd d0 = Inl (ErrorReadingRecord err)" for d0
    using Cons.prems by (intro Cons.IH) simp_all
  show ?case
    by (subst read_records.simps) (simp add: rd ih)
qed

lemma ReadDomainsFromCSV_consistent:
  assumes "fs filename = Inr (Fields header # map Fields rows)"
    "\<forall>r\<in>set rows. length r = length header"
  shows "\<exists>d. ReadDomainsFromCSV fs filename = Inr d \<and> gc_grown d \<and>
           elems d = map row_Domain (filter (\<lambda>r. 2 \<le> length r) rows)"
proof -
  let ?rd = "\<lparr>input = map Fields rows, FieldsPerRecord = int (length header)\<rparr>"
  have h: "Read (NewReader (Fields header # map Fields rows)) = ((header, None), ?rd)"
    by (simp add: NewReader_def Read.simps)
  have "\<exists>d'. read_records ?rd nil_slice = Inr d' \<and> gc_grown d' \<and>
           elems d' = elems nil_slice @ map row_Domain (filter (\<lambda>r. 2 \<le> length r) rows)"
    using assms(2) by (intro read_records_consistent) (simp_all add: gc_grown_nil)
  then show ?thesis
    using assms(1) by (simp add: ReadDomainsFromCSV_def h elems_def nil_slice_def)
qed

section \<open>The pipeline: every domain is accounted for\<close>

lemma worker_round_one:
  "\<exists>r. fst (worker_round env d) = [r] \<and> DomainF r = d"
  by (auto simp: worker_round_def Let_def split: option.splits sum.splits)

lemma busy_domains_update:
  assumes "w < length ws"
  shows "mset (busy_domains (ws[w := x])) + mset (held (ws ! w)) = mset (busy_domains ws) + mset (held x)"
proof -
  have "ws = take w ws @ ws ! w # drop (Suc w) ws"
    using assms by (rule id_take_nth_drop)
  then have a: "busy_domains ws = busy_domains (take w ws) @ held (ws ! w) @ busy_domains (drop (Suc w) ws)"
    unfolding busy_domains_def by (metis concat.simps(2) concat_append list.simps(9) map_append)
  have "ws[w := x] = take w ws @ x # drop (Suc w) ws"
    using assms by (rule upd_conv_take_nth_drop)
  then have b: "busy_domains (ws[w := x]) = busy_domains (take w ws) @ held x @ busy_domains (drop (Suc w) ws)"
    unfolding busy_domains_def by simp
  show ?thesis
    by (simp add: a b)
qed

lemma reported_append [simp]: "reported (xs @ ys) = reported xs @ reported ys"
  by (simp add: reported_def)

lemma reported_process_result:
  "reported (out (process_result r s)) = reported (out s) @ [DomainF r]"
  by (simp add: process_result_def Let_def reported_def split: option.splits)

lemma process_result_frame:
  "to_send (process_result r s) = to_send s" "jobs (process_result r s) = jobs s"
  "workers (process_result r s) = workers s" "results (process_result r s) = results s"
  "jobs_closed (process_result r s) = jobs_closed s"
  "results_closed (process_result r s) = results_closed s"
  "finished (process_result r s) = finished s" "total (process_result r s) = total s"
  "requested (process_result r s) = requested s"
  by (simp_all add: process_result_def Let_def split: option.splits)

lemma process_result_counters:
  "successful (process_result r s) + failed (process_result r s) = successful s + failed s + 1"
  by (simp add: process_result_def Let_def split: option.splits)

lemma reported_summary [simp]: "reported (summary s) = []"
  by (simp add: summary_def reported_def split_def)

lemma accounted_step: "accounted (step e s) = accounted s"
proof (cases e)
  case SendJob
  then show ?thesis by (simp add: accounted_def split: list.splits)
next
  case CloseJobs
  then show ?thesis by (simp add: accounted_def reported_def)
next
  case (Receive w)
  show ?thesis
  proof (cases "w < length (workers s) \<and> workers s ! w = Ready")
    case True
    then show ?thesis
      using busy_domains_update [of w "workers s" Exited]
            busy_domains_update [of w "workers s" "Busy d" for d] Receive
      by (auto simp: accounted_def split: list.splits)
  next
    case False
    then show ?thesis using Receive by auto
  qed
next
  case (Emit w env)
  show ?thesis
  proof (cases "workers s ! w")
    case (Busy d)
    obtain r where r: "fst (worker_round env d) = [r]" "DomainF r = d"
      using worker_round_one by blast
    show ?thesis
      using busy_domains_update [of w "workers s" Ready] Emit Busy r
      by (auto simp: accounted_def)
  qed (use Emit in auto)
next
  case CloseResults
  then show ?thesis by (simp add: accounted_def)
next
  case Collect
  then show ?thesis
    by (auto simp: accounted_def process_result_frame reported_process_result split: list.splits)
next
  case Summarize
  then show ?thesis by (simp add: accounted_def)
qed

lemma reported_simps [simp]:
  "reported [] = []" "reported (l # ls) = line_domain l @ reported ls"
  by (simp_all add: reported_def)

lemma counters_step:
  assumes "successful s + failed s = int (length (reported (out s)))"
  shows "successful (step e s) + failed (step e s) = int (length (reported (out (step e s))))"
proof (cases e)
  case Collect
  then show ?thesis
    using assms
    by (auto simp: process_result_counters reported_process_result process_result_frame
             split: list.splits)
next
  case (Emit w env)
  then show ?thesis
    using assms by (auto split: wstate.splits)
qed (use assms in \<open>auto split: list.splits\<close>)

lemma not_all_Exited:
  "w < length ws \<Longrightarrow> ws ! w \<noteq> Exited \<Longrightarrow> \<not> list_all (\<lambda>w. w = Exited) ws"
  by (auto simp: list_all_length)

lemma Exited_update:
  "Exited \<in> set (ws[w := x]) \<Longrightarrow> x \<noteq> Exited \<Longrightarrow> Exited \<in> set ws"
  using set_update_subset_insert [of ws w x] by auto

lemma flags_step:
  assumes "flags_inv s"
  shows "flags_inv (step e s)"
proof (cases e)
  case (Receive w)
  show ?thesis
  proof (cases "w < length (workers s) \<and> workers s ! w = Ready")
    case True
    then have n: "\<not> list_all (\<lambda>w. w = Exited) (workers s)"
      by (intro not_all_Exited [of w]) simp_all
    show ?thesis
    proof (cases "jobs s")
      case Nil
      then show ?thesis
        using assms Receive True n by (auto simp: flags_inv_def)
    next
      case (Cons d ds)
      have "Exited \<notin> set (workers s)"
        using assms Cons by (auto simp: flags_inv_def)
      then have "Exited \<notin> set ((workers s)[w := Busy d])"
        using Exited_update [of "workers s" w "Busy d"] by auto
      then show ?thesis
        using assms Receive True n Cons by (auto simp: flags_inv_def)
    qed
  next
    case False
    then show ?thesis
      using assms Receive by auto
  qed
next
  case (Emit w env)
  show ?thesis
  proof (cases "workers s ! w")
    case (Busy d)
    show ?thesis
    proof (cases "w < length (workers s) \<and> length (results s) < total s")
      case True
      then have n: "\<not> list_all (\<lambda>w. w = Exited) (workers s)"
        using Busy by (intro not_all_Exited [of w]) simp_all
      have "Exited \<in> set ((workers s)[w := Ready]) \<Longrightarrow> Exited \<in> set (workers s)"
        using Exited_update [of "workers s" w Ready] by auto
      then show ?thesis
        using assms Emit True n Busy by (auto simp: flags_inv_def)
    next
      case False
      then show ?thesis
        using assms Emit by auto
    qed
  qed (use assms Emit in auto)
next
  case Collect
  then show ?thesis
    using assms by (auto simp: flags_inv_def process_result_frame split: list.splits)
next
  case SendJob
  then show ?thesis
    using assms by (auto simp: flags_inv_def split: list.splits)
next
  case CloseJobs
  then show ?thesis
    using assms by (auto simp: flags_inv_def)
next
  case CloseResults
  then show ?thesis
    using assms by (auto simp: flags_inv_def)
next
  case Summarize
  then show ?thesis
    using assms by (auto simp: flags_inv_def)
qed

lemma total_step [simp]: "total (step e s) = total s"
  by (cases e) (auto simp: process_result_frame split: list.splits wstate.splits)

lemma pipeline_inv_init: "pipeline_inv ds (init ds)"
  by (simp add: pipeline_inv_def init_def accounted_def busy_domains_def flags_inv_def
        numWorkers_def list_all_iff)

lemma pipeline_inv_step: "pipeline_inv ds s \<Longrightarrow> pipeline_inv ds (step e s)"
  by (simp add: pipeline_inv_def accounted_step counters_step flags_step)

lemma pipeline_inv_run: "pipeline_inv ds s \<Longrightarrow> pipeline_inv ds (run sched s)"
  unfolding run_def by (induction sched arbitrary: s) (simp_all add: pipeline_inv_step)

lemma busy_domains_all_Exited: "list_all (\<lambda>w. w = Exited) ws \<Longrightarrow> busy_domains ws = []"
  by (induction ws) (auto simp: busy_domains_def)

lemma pipeline_inv_finished:
  assumes "pipeline_inv ds s" "finished s"
  shows "mset (reported (out s)) = mset ds" "successful s + failed s = int (length ds)"
    "to_send s = []" "jobs s = []" "results s = []"
proof -
  have f: "flags_inv s" and a: "accounted s = mset ds"
    and c: "successful s + failed s = int (length (reported (out s)))"
    using assms(1) by (simp_all add: pipeline_inv_def)
  have r: "results s = []" "results_closed s"
    using f assms(2) by (simp_all add: flags_inv_def)
  then have e: "list_all (\<lambda>w. w = Exited) (workers s)"
    using f by (simp add: flags_inv_def)
  have "workers s \<noteq> []"
    using f by (auto simp: flags_inv_def numWorkers_def)
  then have "Exited \<in> set (workers s)"
    using e by (cases "workers s") simp_all
  then have j: "jobs s = []" "jobs_closed s"
    using f by (simp_all add: flags_inv_def)
  then have t: "to_send s = []"
    using f by (simp add: flags_inv_def)
  show m: "mset (reported (out s)) = mset ds"
    using a r j t busy_domains_all_Exited [OF e] by (simp add: accounted_def)
  have "length (reported (out s)) = length ds"
    using m by (metis size_mset)
  then show "successful s + failed s = int (length ds)"
    using c by simp
  show "to_send s = []" "jobs s = []" "results s = []"
    using t j r by simp_all
qed

section \<open>The statistics of the aggregator\<close>

lemma sum_stats_update:
  "f zero_stats = 0 \<Longrightarrow>
   sum_stats f (AList.update k v m) = sum_stats f m - f (get_stats m k) + f v"
  by (induction m) (auto simp: sum_stats_def get_stats_def)

lemma get_stats_update:
  "get_stats (AList.update k v m) c = (if c = k then v else get_stats m c)"
  by (simp add: get_stats_def update_conv')

lemma stats_inv_process: "stats_inv s \<Longrightarrow> stats_inv (process_result r s)"
  by (auto simp: stats_inv_def process_result_def Let_def sum_stats_update zero_stats_def
        distinct_update split: option.splits)

lemma stats_inv_step: "stats_inv s \<Longrightarrow> stats_inv (step e s)"
proof (cases e)
  case Collect
  assume "stats_inv s"
  then have "stats_inv (s\<lparr>results := rs\<rparr>)" for rs
    by (simp add: stats_inv_def)
  then show ?thesis
    using Collect \<open>stats_inv s\<close> by (auto split: list.splits intro: stats_inv_process)
qed (auto simp: stats_inv_def split: list.splits wstate.splits)

lemma stats_inv_run: "stats_inv s \<Longrightarrow> stats_inv (run sched s)"
  unfolding run_def by (induction sched arbitrary: s) (simp_all add: stats_inv_step)

lemma stats_inv_init: "stats_inv (init ds)"
  by (simp add: stats_inv_def init_def sum_stats_def)

lemma balanced_process: "balanced s \<Longrightarrow> balanced (process_result r s)"
  by (auto simp: balanced_def process_result_def Let_def get_stats_update split: option.splits)

lemma balanced_step: "balanced s \<Longrightarrow> balanced (step e s)"
proof (cases e)
  case Collect
  assume "balanced s"
  then have "balanced (s\<lparr>results := rs\<rparr>)" for rs
    by (simp add: balanced_def)
  then show ?thesis
    using Collect \<open>balanced s\<close> by (auto split: list.splits intro: balanced_process)
qed (auto simp: balanced_def split: list.splits wstate.splits)

lemma balanced_run: "balanced s \<Longrightarrow> balanced (run sched s)"
  unfolding run_def by (induction sched arbitrary: s) (simp_all add: balanced_step)

lemma balanced_init: "balanced (init ds)"
  by (simp add: balanced_def init_def get_stats_def zero_stats_def)

section \<open>A schedule that completes\<close>

lemma run_append: "run (xs @ ys) s = run ys (run xs s)"
  by (simp add: run_def)

lemma run_Cons: "run (e # es) s = run es (step e s)"
  by (simp add: run_def)

lemma run_Nil: "run [] s = s"
  by (simp add: run_def)

lemma run_sends:
  "length (jobs s) + length (to_send s) \<le> total s \<Longrightarrow>
   run (replicate (length (to_send s)) SendJob) s = s\<lparr>to_send := [], jobs := jobs s @ to_send s\<rparr>"
proof (induction "to_send s" arbitrary: s)
  case Nil
  then show ?case by (simp add: run_Nil)
next
  case (Cons d ds)
  let ?s = "s\<lparr>to_send := ds, jobs := jobs s @ [d]\<rparr>"
  have s: "step SendJob s = ?s"
    using Cons.hyps(2) [symmetric] Cons.prems by simp
  have "run (replicate (length (to_send ?s)) SendJob) ?s = ?s\<lparr>to_send := [], jobs := jobs ?s @ to_send ?s\<rparr>"
    using Cons.hyps(2) [symmetric] Cons.prems by (intro Cons.hyps(1)) simp_all
  then show ?case
    using Cons.hyps(2) [symmetric] Cons.prems by (simp add: run_Cons)
qed

lemma replicate_update_same: "(replicate n x)[i := x] = replicate n x"
  by (induction n arbitrary: i) (simp_all split: nat.splits)

lemma serving_process: "serving (process_result r s) = serving s"
  by (simp add: serving_def process_result_frame)

lemma run_rounds:
  "serving s \<Longrightarrow> length envs = length (jobs s) \<Longrightarrow>
   serving (run (concat (map (\<lambda>env. [Receive 0, Emit 0 env, Collect]) envs)) s) \<and>
   jobs (run (concat (map (\<lambda>env. [Receive 0, Emit 0 env, Collect]) envs)) s) = []"
proof (induction envs arbitrary: s)
  case Nil
  then show ?case by (simp add: run_Nil)
next
  case (Cons env envs)
  obtain d ds where j: "jobs s = d # ds"
    using Cons.prems(2) by (cases "jobs s") simp_all
  obtain r where r: "fst (worker_round env d) = [r]"
    using worker_round_one by blast
  define s1 where "s1 = step (Receive 0) s"
  define s2 where "s2 = step (Emit 0 env) s1"
  define s3 where "s3 = step Collect s2"
  have w: "workers s = replicate numWorkers Ready" "0 < total s"
    using Cons.prems(1) j by (simp_all add: serving_def)
  have s1: "s1 = s\<lparr>jobs := ds, workers := (workers s)[0 := Busy d]\<rparr>"
    using j w by (simp add: s1_def numWorkers_def)
  have s2: "s2 = s\<lparr>jobs := ds, results := [r], requested := requested s @ snd (worker_round env d)\<rparr>"
    using Cons.prems(1) w r by (simp add: s2_def s1 numWorkers_def serving_def replicate_update_same)
  have f2: "jobs_closed s2" "\<not> finished s2" "results s2 = [r]" "jobs s2 = ds" "to_send s2 = []"
    "workers s2 = replicate numWorkers Ready" "total s2 = total s" "\<not> results_closed s2"
    using Cons.prems(1) by (simp_all add: s2 serving_def)
  have s3: "s3 = process_result r (s2\<lparr>results := []\<rparr>)"
    by (simp add: s3_def f2)
  have "serving s3"
    using Cons.prems(1) j by (simp add: s3 serving_process) (simp add: serving_def f2)
  moreover have "length envs = length (jobs s3)"
    using Cons.prems(2) j by (simp add: s3 process_result_frame f2)
  ultimately have "serving (run (concat (map (\<lambda>env. [Receive 0, Emit 0 env, Collect]) envs)) s3) \<and>
     jobs (run (concat (map (\<lambda>env. [Receive 0, Emit 0 env, Collect]) envs)) s3) = []"
    by (rule Cons.IH)
  then show ?case
    by (simp add: run_Cons s1_def s2_def s3_def)
qed

lemma run_exits: "serving s \<Longrightarrow> jobs s = [] \<Longrightarrow> finished (run exits s)"
  by (simp add: serving_def exits_def run_def numWorkers_def eval_nat_numeral)

lemma sequential_finishes:
  assumes "length envs = length ds"
  shows "finished (run (sequential envs) (init ds))"
proof -
  define s1 where "s1 = run (replicate (length envs) SendJob) (init ds)"
  define s2 where "s2 = step CloseJobs s1"
  define s3 where "s3 = run (concat (map (\<lambda>env. [Receive 0, Emit 0 env, Collect]) envs)) s2"
  have "s1 = (init ds)\<lparr>to_send := [], jobs := jobs (init ds) @ to_send (init ds)\<rparr>"
    using run_sends [of "init ds"] assms by (simp add: s1_def init_def)
  then have s1: "s1 = (init ds)\<lparr>to_send := [], jobs := ds\<rparr>"
    by (simp add: init_def)
  have s2: "serving s2" "jobs s2 = ds"
    by (simp_all add: s2_def s1 serving_def init_def)
  have "serving s3 \<and> jobs s3 = []"
    unfolding s3_def using s2 assms by (intro run_rounds) simp_all
  then have "finished (run exits s3)"
    by (simp add: run_exits)
  then show ?thesis
    by (simp add: sequential_def run_append run_Cons run_Nil s1_def s2_def s3_def)
qed

section \<open>The loaded slice and the re-slice of main\<close>



lemma read_records_malformed:
  "Malformed msg \<in> set (input rd) \<Longrightarrow> \<exists>e. read_records rd d = Inl (ErrorReadingRecord e)"
proof (induction "input rd" arbitrary: rd d)
  case Nil
  then show ?case by simp
next
  case (Cons l ls)
  obtain row err rd' where r: "Read rd = ((row, err), rd')"
    by (metis prod.exhaust)
  have i: "input rd' = ls"
    using Cons.hyps(2) [symmetric] r by (cases l) (auto simp: Read.simps split: if_splits)
  show ?case
  proof (cases l)
    case (Malformed m)
    then have "Read rd = (([], Some (ParseError m)), rd\<lparr>input := ls\<rparr>)"
      using Cons.hyps(2) [symmetric] by (simp add: Read_malformed)
    then show ?thesis
      by (subst read_records.simps) simp
  next
    case (Fields fs)
    then have m: "Malformed msg \<in> set (input rd')"
      using Cons.prems Cons.hyps(2) [symmetric] i by auto
    have ih: "\<exists>e. read_records rd' d0 = Inl (ErrorReadingRecord e)" for d0
      using Cons.hyps(1) [of rd' d0] i m by simp
    have "err \<noteq> Some EOF"
      using r Fields Cons.hyps(2) [symmetric] by (auto simp: Read.simps split: if_splits)
    then show ?thesis
      using ih r by (subst read_records.simps) (auto split: option.splits read_error.splits)
  qed
qed

lemma elems_reslice:
  "reslice d n = Inr d' \<Longrightarrow> elems d' = take n (arr d)"
  by (auto simp: reslice_def elems_def split: if_splits)

lemma take_arr_long: "n \<le> len d \<Longrightarrow> take n (arr d) = take n (elems d)"
  by (simp add: elems_def min_def)


lemma length_elems: "gc_grown d \<Longrightarrow> length (elems d) = len d"
  by (simp add: elems_def gc_grown_def cap_def)

lemma main_Ran:
  "ReadDomainsFromCSV fs csvFile = Inr d \<Longrightarrow> 200 \<le> cap d \<Longrightarrow>
   main fs sched = Ran (run sched (init (take 200 (arr d))))"
  by (simp add: main_def reslice_def elems_def)


lemma main_Fatal:
  "ReadDomainsFromCSV fs csvFile = Inl e \<Longrightarrow> main fs sched = Fatal e"
  by (simp add: main_def)

lemma fs_rows_loaded:
  "\<exists>d. ReadDomainsFromCSV (fs_rows n) filename = Inr d \<and> gc_grown d \<and> len d = n \<and>
       elems d = replicate n \<lparr>Name = ''example.com'', Category = ''tech''\<rparr>"
proof -
  let ?rows = "replicate n [''example.com'', ''tech'']"
  have "\<exists>d. ReadDomainsFromCSV (fs_rows n) filename = Inr d \<and> gc_grown d \<and>
           elems d = map row_Domain (filter (\<lambda>r. 2 \<le> length r) ?rows)"
    by (rule ReadDomainsFromCSV_consistent [where header = "[''domain'', ''category'']"])
       (simp_all add: fs_rows_def)
  then obtain d where d: "ReadDomainsFromCSV (fs_rows n) filename = Inr d" "gc_grown d"
     "elems d = map row_Domain (filter (\<lambda>r. 2 \<le> length r) ?rows)"
    by blast
  have e: "elems d = replicate n \<lparr>Name = ''example.com'', Category = ''tech''\<rparr>"
    using d(3) by (simp add: filter_replicate)
  then have "len d = n"
    using length_elems [OF d(2)] by simp
  then show ?thesis
    using d e by blast
qed

section \<open>Runs of main\<close>

lemma total_run: "total (run sched s) = total s"
  unfolding run_def by (induction sched arbitrary: s) simp_all

lemma main_Ran_cases:
  assumes "main fs sched = Ran s"
  shows "\<exists>d. ReadDomainsFromCSV fs csvFile = Inr d \<and> 200 \<le> cap d \<and>
           s = run sched (init (take 200 (arr d)))"
proof -
  obtain d where d: "ReadDomainsFromCSV fs csvFile = Inr d"
    using assms by (cases "ReadDomainsFromCSV fs csvFile") (simp_all add: main_def)
  have c: "200 \<le> cap d"
    using assms d by (cases "200 \<le> cap d") (simp_all add: main_def reslice_def)
  then have "s = run sched (init (take 200 (arr d)))"
    using assms main_Ran [OF d c, of sched] by simp
  then show ?thesis
    using d c by blast
qed

lemma length_take_arr: "n \<le> cap d \<Longrightarrow> length (take n (arr d)) = n"
  by (simp add: cap_def)

lemma fs_rows_completes:
  assumes "129 \<le> n"
  shows "\<exists>d s. ReadDomainsFromCSV (fs_rows n) csvFile = Inr d \<and> len d = n \<and>
           elems d = replicate n \<lparr>Name = ''example.com'', Category = ''tech''\<rparr> \<and>
           main (fs_rows n) (sequential (replicate 200 env_ok)) = Ran s \<and> finished s"
proof -
  obtain d where d: "ReadDomainsFromCSV (fs_rows n) csvFile = Inr d" "gc_grown d" "len d = n"
      "elems d = replicate n \<lparr>Name = ''example.com'', Category = ''tech''\<rparr>"
    using fs_rows_loaded [of n csvFile] by blast
  have c: "200 \<le> cap d"
    using gc_grown_panic_iff [OF d(2)] d(3) assms by simp
  let ?s = "run (sequential (replicate 200 env_ok)) (init (take 200 (arr d)))"
  have "main (fs_rows n) (sequential (replicate 200 env_ok)) = Ran ?s"
    using d(1) c by (rule main_Ran)
  moreover have "finished ?s"
    using c by (intro sequential_finishes) (simp add: cap_def)
  ultimately show ?thesis
    using d by blast
qed

section \<open>The claims\<close>

text \<open>
  Claim C1. As stated (the final successful count plus the final failed count equals the
  number of domains processed, and that number equals the number of domains loaded from
  the input file) the claim fails: line 131 keeps 200 entries, so a file of 201 data rows
  loads 201 domains and a completed run counts 200.
\<close>

theorem processed_not_loaded_counterexample:
  "map_sum id len (ReadDomainsFromCSV (fs_rows 201) csvFile) = Inr 201 \<and>
   (case main (fs_rows 201) (sequential (replicate 200 env_ok)) of
      Ran s \<Rightarrow> finished s \<and> successful s + failed s = 200 \<and> total s = 200
    | _ \<Rightarrow> False)"
proof -
  obtain d s where d: "ReadDomainsFromCSV (fs_rows 201) csvFile = Inr d" "len d = 201"
      and s: "main (fs_rows 201) (sequential (replicate 200 env_ok)) = Ran s" "finished s"
    using fs_rows_completes [of 201] by auto
  obtain d' where d': "ReadDomainsFromCSV (fs_rows 201) csvFile = Inr d'" "200 \<le> cap d'"
      "s = run (sequential (replicate 200 env_ok)) (init (take 200 (arr d')))"
    using main_Ran_cases [OF s(1)] by blast
  have l: "length (take 200 (arr d')) = 200"
    using d'(2) by (rule length_take_arr)
  have i: "pipeline_inv (take 200 (arr d')) s"
    unfolding d'(3) by (intro pipeline_inv_run pipeline_inv_init)
  have "successful s + failed s = 200" "total s = 200"
    using pipeline_inv_finished(2) [OF i s(2)] i l by (simp_all add: pipeline_inv_def)
  then show ?thesis
    using d s by simp
qed

text \<open>
  Claim C1, amended. For every run that completes, the successful count plus the failed
  count equals the number of domains processed, and the domains processed (those named
  by the per-result lines) are exactly the entries of the list that main enqueues,
  \<open>domains[:200]\<close>, each counted once: no drops, no duplicates. When at least 200
  domains are loaded that list is the first 200 loaded domains, and the count is 200.
\<close>

theorem every_job_counted_once:
  assumes "ReadDomainsFromCSV fs csvFile = Inr d" and "main fs sched = Ran s" and "finished s"
  shows "successful s + failed s = int (length (reported (out s))) \<and>
         mset (reported (out s)) = mset (take 200 (arr d)) \<and>
         int (total s) = successful s + failed s \<and>
         (200 \<le> len d \<longrightarrow>
            mset (reported (out s)) = mset (take 200 (elems d)) \<and>
            successful s + failed s = 200)"
proof -
  obtain d' where d': "ReadDomainsFromCSV fs csvFile = Inr d'" "200 \<le> cap d'"
      "s = run sched (init (take 200 (arr d')))"
    using main_Ran_cases [OF assms(2)] by blast
  have e: "d' = d"
    using d'(1) assms(1) by simp
  have l: "length (take 200 (arr d)) = 200"
    using d'(2) e by (intro length_take_arr) simp
  have i: "pipeline_inv (take 200 (arr d)) s"
    unfolding d'(3) e by (intro pipeline_inv_run pipeline_inv_init)
  have m: "mset (reported (out s)) = mset (take 200 (arr d))"
    using i assms(3) by (rule pipeline_inv_finished(1))
  have n: "successful s + failed s = 200"
    using pipeline_inv_finished(2) [OF i assms(3)] l by simp
  have "successful s + failed s = int (length (reported (out s)))" "total s = 200"
    using i l by (simp_all add: pipeline_inv_def)
  then show ?thesis
    using m n take_arr_long [of 200 d] by simp
qed

theorem every_job_counted_once_witness:
  "case main (fs_rows 201) (sequential (replicate 200 env_ok)) of
     Ran s \<Rightarrow> finished s \<and> successful s + failed s = 200 \<and>
       mset (reported (out s)) = mset (replicate 200 \<lparr>Name = ''example.com'', Category = ''tech''\<rparr>)
   | _ \<Rightarrow> False"
proof -
  obtain d s where d: "ReadDomainsFromCSV (fs_rows 201) csvFile = Inr d" "len d = 201"
      "elems d = replicate 201 \<lparr>Name = ''example.com'', Category = ''tech''\<rparr>"
      and s: "main (fs_rows 201) (sequential (replicate 200 env_ok)) = Ran s" "finished s"
    using fs_rows_completes [of 201] by auto
  have "200 \<le> len d"
    using d(2) by simp
  then have "mset (reported (out s)) = mset (take 200 (elems d)) \<and> successful s + failed s = 200"
    using every_job_counted_once [OF d(1) s] by blast
  then show ?thesis
    using d(3) s by simp
qed

text \<open>
  Claim C2. For every valid input file that consists of a header row followed by data
  rows of at least 2 columns each, \<open>ReadDomainsFromCSV\<close> returns exactly one \<open>Domain\<close> per
  data row, in the order of the file, without the header row, with column 0 as the name
  and column 1 as the category. A valid file can be opened, every line of it splits into
  fields, and every row has as many fields as the header (the rule of the tabular format
  that the reader checks).
\<close>

theorem ReadDomainsFromCSV_valid_file:
  assumes "fs filename = Inr (Fields header # map Fields rows)"
    and "\<forall>row\<in>set rows. length row = length header"
    and "\<forall>row\<in>set rows. 2 \<le> length row"
  shows "\<exists>domains. ReadDomainsFromCSV fs filename = Inr domains \<and> len domains = length rows \<and>
           elems domains = map (\<lambda>row. \<lparr>Name = row ! 0, Category = row ! 1\<rparr>) rows"
proof -
  obtain d where d: "ReadDomainsFromCSV fs filename = Inr d" "gc_grown d"
      "elems d = map row_Domain (filter (\<lambda>r. 2 \<le> length r) rows)"
    using ReadDomainsFromCSV_consistent [of fs filename header rows] assms(1,2) by blast
  have f: "filter (\<lambda>r. 2 \<le> length r) rows = rows"
    using assms(3) by (simp add: filter_id_conv)
  have "len d = length rows"
    using length_elems [OF d(2)] d(3) f by simp
  then show ?thesis
    using d f by simp
qed

theorem ReadDomainsFromCSV_valid_file_witness:
  "\<exists>domains. ReadDomainsFromCSV
      (\<lambda>name. Inr [Fields [''domain'', ''category''], Fields [''example.com'', ''tech''],
                    Fields [''example.org'', ''news'']]) ''domains2.csv'' = Inr domains \<and>
     len domains = 2 \<and>
     elems domains = [\<lparr>Name = ''example.com'', Category = ''tech''\<rparr>,
                      \<lparr>Name = ''example.org'', Category = ''news''\<rparr>]"
  using ReadDomainsFromCSV_valid_file
    [of "\<lambda>name. Inr [Fields [''domain'', ''category''], Fields [''example.com'', ''tech''],
                    Fields [''example.org'', ''news'']]" "''domains2.csv''"
        "[''domain'', ''category'']" "[[''example.com'', ''tech''], [''example.org'', ''news'']]"]
  by (simp add: numeral_2_eq_2)

text \<open>
  Claim C3. As stated (a data row of fewer than 2 columns is left out and does not by
  itself make the loader fail) the claim fails: under a header of two columns the reader
  rejects a row of one column with \<open>ErrFieldCount\<close>, and the loader returns the error of
  line 106; without that row the same file loads.
\<close>

theorem short_row_counterexample:
  "ReadDomainsFromCSV
     (\<lambda>name. Inr [Fields [''domain'', ''category''], Fields [''example.com'', ''tech''],
                   Fields [''orphan'']]) ''domains2.csv''
     = Inl (ErrorReadingRecord ErrFieldCount) \<and>
   map_sum id elems (ReadDomainsFromCSV
     (\<lambda>name. Inr [Fields [''domain'', ''category''], Fields [''example.com'', ''tech'']])
     ''domains2.csv'')
     = Inr [\<lparr>Name = ''example.com'', Category = ''tech''\<rparr>]"
  by code_simp

text \<open>
  Claim C3, amended. In a file whose rows all have as many fields as the header, the rows
  of fewer than 2 columns are left out of the returned sequence and cause no error (the
  other rows are returned in order). A row whose number of fields differs from that of
  a non-empty header, the rows before it being consistent, makes the loader return the
  error \<open>ErrFieldCount\<close> of the reader.
\<close>

theorem short_rows_skipped:
  "(fs filename = Inr (Fields header # map Fields rows) \<and>
    (\<forall>row\<in>set rows. length row = length header) \<longrightarrow>
      (\<exists>domains. ReadDomainsFromCSV fs filename = Inr domains \<and>
         elems domains = map (\<lambda>row. \<lparr>Name = row ! 0, Category = row ! 1\<rparr>)
                           (filter (\<lambda>row. 2 \<le> length row) rows)))
   \<and> (fs filename = Inr (Fields header # map Fields pre @ Fields row # rest) \<and>
      (\<forall>p\<in>set pre. length p = length header) \<and> header \<noteq> [] \<and>
      length row \<noteq> length header \<longrightarrow>
        ReadDomainsFromCSV fs filename = Inl (ErrorReadingRecord ErrFieldCount))"
proof (intro conjI impI)
  assume "fs filename = Inr (Fields header # map Fields rows) \<and>
    (\<forall>row\<in>set rows. length row = length header)"
  then show "\<exists>domains. ReadDomainsFromCSV fs filename = Inr domains \<and>
         elems domains = map (\<lambda>row. \<lparr>Name = row ! 0, Category = row ! 1\<rparr>)
                           (filter (\<lambda>row. 2 \<le> length row) rows)"
    using ReadDomainsFromCSV_consistent [of fs filename header rows] by blast
next
  assume a: "fs filename = Inr (Fields header # map Fields pre @ Fields row # rest) \<and>
      (\<forall>p\<in>set pre. length p = length header) \<and> header \<noteq> [] \<and>
      length row \<noteq> length header"
  let ?rd = "\<lparr>input = map Fields pre @ Fields row # rest, FieldsPerRecord = int (length header)\<rparr>"
  have h: "Read (NewReader (Fields header # map Fields pre @ Fields row # rest)) = ((header, None), ?rd)"
    by (simp add: NewReader_def Read.simps)
  have r: "Read (?rd\<lparr>input := Fields row # rest\<rparr>)
             = ((row, Some ErrFieldCount), ?rd\<lparr>input := rest\<rparr>)"
    using a by (simp add: Read.simps)
  have p: "\<forall>r\<in>set pre. int (length r) = FieldsPerRecord ?rd"
    using a by simp
  have "read_records ?rd nil_slice = Inl (ErrorReadingRecord ErrFieldCount)"
    by (rule read_records_error [OF _ p r]) simp_all
  then show "ReadDomainsFromCSV fs filename = Inl (ErrorReadingRecord ErrFieldCount)"
    using a by (simp add: ReadDomainsFromCSV_def h)
qed

theorem short_rows_skipped_witness:
  "(\<exists>domains. ReadDomainsFromCSV
       (\<lambda>name. Inr [Fields [''domain''], Fields [''example.com''], Fields [''example.org'']])
       ''domains2.csv'' = Inr domains \<and> elems domains = []) \<and>
   ReadDomainsFromCSV
     (\<lambda>name. Inr [Fields [''domain'', ''category''], Fields [''example.com'', ''tech''],
                   Fields [''orphan''], Fields [''example.org'', ''news'']]) ''domains2.csv''
     = Inl (ErrorReadingRecord ErrFieldCount)"
proof
  show "\<exists>domains. ReadDomainsFromCSV
       (\<lambda>name. Inr [Fields [''domain''], Fields [''example.com''], Fields [''example.org'']])
       ''domains2.csv'' = Inr domains \<and> elems domains = []"
    using short_rows_skipped
      [of "\<lambda>name. Inr [Fields [''domain''], Fields [''example.com''], Fields [''example.org'']]"
          "''domains2.csv''" "[''domain'']" "[[''example.com''], [''example.org'']]"]
    by simp
next
  show "ReadDomainsFromCSV
     (\<lambda>name. Inr [Fields [''domain'', ''category''], Fields [''example.com'', ''tech''],
                   Fields [''orphan''], Fields [''example.org'', ''news'']]) ''domains2.csv''
     = Inl (ErrorReadingRecord ErrFieldCount)"
    using short_rows_skipped
      [of "\<lambda>name. Inr [Fields [''domain'', ''category''], Fields [''example.com'', ''tech''],
                   Fields [''orphan''], Fields [''example.org'', ''news'']]"
          "''domains2.csv''" "[''domain'', ''category'']" _
          "[[''example.com'', ''tech'']]" "[''orphan'']" "[Fields [''example.org'', ''news'']]"]
    by simp
qed

text \<open>
  Claim C4 (a file of only a header row: zero domains loaded, zero results, a summary
  with Total=0, Successful=0, Failed=0 and empty histograms). On the code the file loads
  zero domains, but the \<open>nil\<close> slice has capacity 0 and the re-slice of line 131 panics,
  under every schedule, before anything is printed: no summary appears.
\<close>

theorem header_only_panics:
  "map_sum id elems (ReadDomainsFromCSV (\<lambda>name. Inr [Fields [''domain'', ''category'']]) csvFile)
     = Inr [] \<and>
   main (\<lambda>name. Inr [Fields [''domain'', ''category'']]) sched
     = Panicked (SliceBoundsOutOfRange 200 0) \<and>
   stdout_of (main (\<lambda>name. Inr [Fields [''domain'', ''category'']]) sched) = []"
proof -
  have "ReadDomainsFromCSV (\<lambda>name. Inr [Fields [''domain'', ''category'']]) csvFile = Inr nil_slice"
    by (simp add: ReadDomainsFromCSV_def NewReader_def Read.simps read_records.simps)
  then show ?thesis
    by (simp add: main_def reslice_def nil_slice_def cap_def elems_def)
qed

text \<open>
  Claim C5. For every run that completes, the sum over the categories (the keys of the
  category map, each occurring once) of the \<open>Total\<close> fields equals the overall total
  \<open>len(domains)\<close> that the summary prints, which is the successful count plus the failed
  count; the sum of the \<open>Success\<close> fields equals the successful count and the sum of the
  \<open>Failed\<close> fields the failed count.
\<close>

theorem category_sums_match_totals:
  assumes "main fs sched = Ran s" and "finished s"
  shows "sum_stats Total (categoryStats s) = int (total s) \<and>
         sum_stats Success (categoryStats s) = successful s \<and>
         sum_stats Failed (categoryStats s) = failed s \<and>
         successful s + failed s = int (total s) \<and>
         distinct (map fst (categoryStats s))"
proof -
  obtain d where d: "200 \<le> cap d" "s = run sched (init (take 200 (arr d)))"
    using main_Ran_cases [OF assms(1)] by blast
  have i: "pipeline_inv (take 200 (arr d)) s"
    unfolding d(2) by (intro pipeline_inv_run pipeline_inv_init)
  have t: "successful s + failed s = int (total s)"
    using pipeline_inv_finished(2) [OF i assms(2)] i by (simp add: pipeline_inv_def)
  have "stats_inv s"
    unfolding d(2) by (intro stats_inv_run stats_inv_init)
  then show ?thesis
    using t by (simp add: stats_inv_def)
qed

theorem category_sums_match_totals_witness:
  "case main (fs_rows 200) (sequential (replicate 200 env_ok)) of
     Ran s \<Rightarrow> finished s \<and> sum_stats Total (categoryStats s) = 200 \<and>
       sum_stats Success (categoryStats s) + sum_stats Failed (categoryStats s) = 200
   | _ \<Rightarrow> False"
proof -
  obtain d s where d: "ReadDomainsFromCSV (fs_rows 200) csvFile = Inr d"
      and s: "main (fs_rows 200) (sequential (replicate 200 env_ok)) = Ran s" "finished s"
    using fs_rows_completes [of 200] by auto
  obtain d' where d': "200 \<le> cap d'" "s = run (sequential (replicate 200 env_ok)) (init (take 200 (arr d')))"
    using main_Ran_cases [OF s(1)] by blast
  have "total s = 200"
    using d'(1) by (simp add: d'(2) total_run init_def cap_def)
  then show ?thesis
    using category_sums_match_totals [OF s] s by simp
qed

text \<open>
  Claim C6. A failure to build the request and a failure of the transport are both turned
  into the one \<open>Result\<close> of the round, which carries the error, and the batch goes on: the
  step of the worker only appends that result and puts the worker back at the head of
  its loop. A failure of the load ends main with the fatal error under every schedule,
  with nothing requested and nothing printed on standard output; the load fails when the
  file cannot be opened, when the header cannot be read (end of input or a rejected
  line), and when a data row is rejected.
\<close>

theorem failures_contained_or_fatal:
  "(request_error env = Some err \<longrightarrow>
      fst (worker_round env d)
        = [\<lparr>DomainF = d, StatusCode = 0, Error = Some err, Duration = elapsed env\<rparr>])
   \<and> (request_error env = None \<and> first_reply env = TransportError err \<longrightarrow>
      fst (worker_round env d)
        = [\<lparr>DomainF = d, StatusCode = 0, Error = Some err, Duration = elapsed env\<rparr>])
   \<and> (w < length (workers s) \<and> workers s ! w = Busy d \<and> length (results s) < total s \<longrightarrow>
      step (Emit w env) s
        = s\<lparr>results := results s @ fst (worker_round env d),
             requested := requested s @ snd (worker_round env d),
             workers := (workers s)[w := Ready]\<rparr>)
   \<and> (ReadDomainsFromCSV fs csvFile = Inl e \<longrightarrow>
      main fs sched = Fatal e \<and> requests_of (main fs sched) = [] \<and>
      stdout_of (main fs sched) = [])
   \<and> (fs csvFile = Inl msg \<longrightarrow> ReadDomainsFromCSV fs csvFile = Inl (ErrorOpeningFile msg))
   \<and> (fs csvFile = Inr [] \<longrightarrow> ReadDomainsFromCSV fs csvFile = Inl (ErrorReadingHeader EOF))
   \<and> (fs csvFile = Inr (Malformed msg # ls) \<longrightarrow>
      ReadDomainsFromCSV fs csvFile = Inl (ErrorReadingHeader (ParseError msg)))
   \<and> (fs csvFile = Inr (Fields header # ls) \<and> Malformed msg \<in> set ls \<longrightarrow>
      (\<exists>e'. ReadDomainsFromCSV fs csvFile = Inl (ErrorReadingRecord e')))"
proof -
  have c1: "request_error env = Some err \<longrightarrow>
      fst (worker_round env d)
        = [\<lparr>DomainF = d, StatusCode = 0, Error = Some err, Duration = elapsed env\<rparr>]"
    by (simp add: worker_round_def)
  have c2: "request_error env = None \<and> first_reply env = TransportError err \<longrightarrow>
      fst (worker_round env d)
        = [\<lparr>DomainF = d, StatusCode = 0, Error = Some err, Duration = elapsed env\<rparr>]"
    by (simp add: worker_round_def)
  have c3: "w < length (workers s) \<and> workers s ! w = Busy d \<and> length (results s) < total s \<longrightarrow>
      step (Emit w env) s
        = s\<lparr>results := results s @ fst (worker_round env d),
             requested := requested s @ snd (worker_round env d),
             workers := (workers s)[w := Ready]\<rparr>"
    by simp
  have c4: "ReadDomainsFromCSV fs csvFile = Inl e \<longrightarrow>
      main fs sched = Fatal e \<and> requests_of (main fs sched) = [] \<and>
      stdout_of (main fs sched) = []"
    by (simp add: main_Fatal)
  have c5: "fs csvFile = Inl msg \<longrightarrow> ReadDomainsFromCSV fs csvFile = Inl (ErrorOpeningFile msg)"
    by (simp add: ReadDomainsFromCSV_def)
  have c6: "fs csvFile = Inr [] \<longrightarrow> ReadDomainsFromCSV fs csvFile = Inl (ErrorReadingHeader EOF)"
    by (simp add: ReadDomainsFromCSV_def NewReader_def Read.simps)
  have c7: "fs csvFile = Inr (Malformed msg # ls) \<longrightarrow>
      ReadDomainsFromCSV fs csvFile = Inl (ErrorReadingHeader (ParseError msg))"
    by (simp add: ReadDomainsFromCSV_def NewReader_def Read.simps)
  have c8: "fs csvFile = Inr (Fields header # ls) \<and> Malformed msg \<in> set ls \<longrightarrow>
      (\<exists>e'. ReadDomainsFromCSV fs csvFile = Inl (ErrorReadingRecord e'))"
  proof
    assume a: "fs csvFile = Inr (Fields header # ls) \<and> Malformed msg \<in> set ls"
    let ?rd = "\<lparr>input = ls, FieldsPerRecord = int (length header)\<rparr>"
    have "Read (NewReader (Fields header # ls)) = ((header, None), ?rd)"
      by (simp add: NewReader_def Read.simps)
    moreover have "\<exists>e'. read_records ?rd nil_slice = Inl (ErrorReadingRecord e')"
      using a by (intro read_records_malformed [of msg]) simp
    ultimately show "\<exists>e'. ReadDomainsFromCSV fs csvFile = Inl (ErrorReadingRecord e')"
      using a by (simp add: ReadDomainsFromCSV_def)
  qed
  show ?thesis
    by (intro conjI) (rule c1 c2 c3 c4 c5 c6 c7 c8)+
qed

theorem failures_contained_or_fatal_witness:
  "fst (worker_round \<lparr>request_error = Some ''invalid URL'', first_reply = Response 200,
                       redirect_replies = [], elapsed = 3\<rparr>
          \<lparr>Name = ''bad host'', Category = ''test''\<rparr>)
     = [\<lparr>DomainF = \<lparr>Name = ''bad host'', Category = ''test''\<rparr>, StatusCode = 0,
         Error = Some ''invalid URL'', Duration = 3\<rparr>] \<and>
   fst (worker_round \<lparr>request_error = None, first_reply = TransportError ''no such host'',
                       redirect_replies = [], elapsed = 7\<rparr>
          \<lparr>Name = ''nonexistent.invalid'', Category = ''test''\<rparr>)
     = [\<lparr>DomainF = \<lparr>Name = ''nonexistent.invalid'', Category = ''test''\<rparr>, StatusCode = 0,
         Error = Some ''no such host'', Duration = 7\<rparr>] \<and>
   workers (run [SendJob, Receive 0,
                 Emit 0 \<lparr>request_error = None, first_reply = TransportError ''no such host'',
                         redirect_replies = [], elapsed = 7\<rparr>]
              (init [\<lparr>Name = ''nonexistent.invalid'', Category = ''test''\<rparr>,
                     \<lparr>Name = ''example.com'', Category = ''tech''\<rparr>])) ! 0 = Ready \<and>
   main (\<lambda>name. Inl ''no such file'') [SendJob] = Fatal (ErrorOpeningFile ''no such file'') \<and>
   main (\<lambda>name. Inr []) [SendJob] = Fatal (ErrorReadingHeader EOF) \<and>
   main (\<lambda>name. Inr [Malformed ''bare quote'']) [SendJob]
     = Fatal (ErrorReadingHeader (ParseError ''bare quote'')) \<and>
   (\<exists>e'. main (\<lambda>name. Inr [Fields [''domain'', ''category''], Malformed ''bare quote'']) [SendJob]
     = Fatal (ErrorReadingRecord e'))"
proof -
  let ?e1 = "\<lparr>request_error = Some ''invalid URL'', first_reply = Response 200,
                       redirect_replies = [], elapsed = 3\<rparr>"
  let ?e2 = "\<lparr>request_error = None, first_reply = TransportError ''no such host'',
                       redirect_replies = [], elapsed = 7\<rparr>"
  let ?d = "\<lparr>Name = ''nonexistent.invalid'', Category = ''test''\<rparr>"
  let ?s = "run [SendJob, Receive 0] (init [?d, \<lparr>Name = ''example.com'', Category = ''tech''\<rparr>])"
  have w1: "fst (worker_round ?e1 \<lparr>Name = ''bad host'', Category = ''test''\<rparr>)
     = [\<lparr>DomainF = \<lparr>Name = ''bad host'', Category = ''test''\<rparr>, StatusCode = 0,
         Error = Some ''invalid URL'', Duration = 3\<rparr>]"
    using failures_contained_or_fatal [where env = ?e1 and err = "''invalid URL''"] by simp
  have w2: "fst (worker_round ?e2 ?d)
     = [\<lparr>DomainF = ?d, StatusCode = 0, Error = Some ''no such host'', Duration = 7\<rparr>]"
    using failures_contained_or_fatal [where env = ?e2 and err = "''no such host''" and d = ?d]
    by simp
  have s: "workers ?s = (replicate numWorkers Ready)[0 := Busy ?d]" "results ?s = []" "total ?s = 2"
    by (simp_all add: run_def init_def numWorkers_def)
  have "step (Emit 0 ?e2) ?s
        = ?s\<lparr>results := results ?s @ fst (worker_round ?e2 ?d),
              requested := requested ?s @ snd (worker_round ?e2 ?d),
              workers := (workers ?s)[0 := Ready]\<rparr>"
    using failures_contained_or_fatal [where env = ?e2 and d = ?d and w = 0 and s = ?s] s
    by (simp add: numWorkers_def)
  then have "workers (step (Emit 0 ?e2) ?s) ! 0 = Ready"
    using s by (simp add: numWorkers_def)
  then have w3: "workers (run [SendJob, Receive 0, Emit 0 ?e2]
              (init [?d, \<lparr>Name = ''example.com'', Category = ''tech''\<rparr>])) ! 0 = Ready"
    by (simp add: run_def)
  have w4: "main (\<lambda>name. Inl ''no such file'') [SendJob] = Fatal (ErrorOpeningFile ''no such file'')"
    using failures_contained_or_fatal
      [where fs = "\<lambda>name. Inl ''no such file''" and e = "ErrorOpeningFile ''no such file''"
         and sched = "[SendJob]" and msg = "''no such file''"]
    by simp
  have w5: "main (\<lambda>name. Inr []) [SendJob] = Fatal (ErrorReadingHeader EOF)"
    using failures_contained_or_fatal
      [where fs = "\<lambda>name. Inr []" and e = "ErrorReadingHeader EOF" and sched = "[SendJob]"]
    by simp
  have w6: "main (\<lambda>name. Inr [Malformed ''bare quote'']) [SendJob]
     = Fatal (ErrorReadingHeader (ParseError ''bare quote''))"
    using failures_contained_or_fatal
      [where fs = "\<lambda>name. Inr [Malformed ''bare quote'']"
         and e = "ErrorReadingHeader (ParseError ''bare quote'')" and sched = "[SendJob]"
         and msg = "''bare quote''" and ls = "[]"]
    by simp
  have "\<exists>e'. ReadDomainsFromCSV
          (\<lambda>name. Inr [Fields [''domain'', ''category''], Malformed ''bare quote'']) csvFile
          = Inl (ErrorReadingRecord e')"
    using failures_contained_or_fatal
      [where fs = "\<lambda>name. Inr [Fields [''domain'', ''category''], Malformed ''bare quote'']"
         and msg = "''bare quote''" and ls = "[Malformed ''bare quote'']"
         and header = "[''domain'', ''category'']"]
    by simp
  then have w7: "\<exists>e'. main (\<lambda>name. Inr [Fields [''domain'', ''category''], Malformed ''bare quote''])
       [SendJob] = Fatal (ErrorReadingRecord e')"
    by (auto simp: main_Fatal)
  show ?thesis
    by (intro conjI) (rule w1 w2 w3 w4 w5 w6 w7)+
qed



text \<open>
  Claim C8. For every domain taken from the job queue the round of the worker sends
  exactly one \<open>Result\<close> for that domain, whatever the environment does, and so on each
  of its three branches: when the request cannot be built and when the transport fails
  the result carries the error and its status code is left at the zero value; otherwise
  it carries no error and the status code of the response.
\<close>

theorem worker_round_one_result:
  "\<exists>r. fst (worker_round env domain) = [r] \<and> DomainF r = domain \<and> Duration r = elapsed env \<and>
     ((\<exists>err. Error r = Some err \<and> StatusCode r = 0 \<and>
          (request_error env = Some err \<or>
           request_error env = None \<and>
           client_Do CheckRedirect (''https://'' @ Name domain) 0 (first_reply env)
             (redirect_replies env) = Inl err)) \<or>
      (Error r = None \<and> request_error env = None \<and>
       client_Do CheckRedirect (''https://'' @ Name domain) 0 (first_reply env)
         (redirect_replies env) = Inr (StatusCode r)))"
  by (auto simp: worker_round_def Let_def split: option.splits sum.splits)




text \<open>
  Claim C10. In every state that the pipeline reaches, under any schedule and for any
  list of domains, hence after each result that the aggregator processes, the entry of
  every category key satisfies \<open>Total = Success + Failed\<close> (a key without an entry reads
  as the zero value, as in Go).
\<close>

theorem category_stats_balanced:
  "Total (get_stats (categoryStats (run sched (init domains))) category) =
   Success (get_stats (categoryStats (run sched (init domains))) category)
   + Failed (get_stats (categoryStats (run sched (init domains))) category)"
  using balanced_run [OF balanced_init, of sched domains] by (simp add: balanced_def)

end
